theory Spec2Isabelle
  imports Main
begin

section \<open>Values of the payload\<close>

text \<open>
  The object returned by \<^verbatim>\<open>response.json()\<close>: Python's None, bool, int, float, str, list
  and dict. A finite float is kept as mantissa and exponent (only its being zero is ever
  looked at). A str is the list of its characters. A dict is kept as the list of its
  items, one per key; a key is looked up with \<open>map_of\<close>.
\<close>

datatype json =
    JNull
  | JBool bool
  | JInt int
  | JFloat int int
  | JStr string
  | JList "json list"
  | JDict "(string \<times> json) list"

text \<open>
  The exceptions. The first three are raised by the operations on payload values written
  out below; the others come from the libraries (requests, json, datetime, urllib).
\<close>

datatype error =
    KeyError string
  | TypeError
  | AttributeError
  | HTTPError
  | ConnectionError
  | JSONDecodeError
  | ValueError
  | OverflowError

datatype datetime = Datetime int

text \<open>
  The dicts appended to \<^verbatim>\<open>comments\<close>. Both extractors write the keys author, text, score,
  created_utc, depth and id; the Reddit one adds permalink, the generic one adds source.
  A key that a dict does not have is \<open>None\<close> here.
\<close>

record comment =
  author :: json
  comment_text :: json
  score :: json
  created_utc :: datetime
  depth :: nat
  ident :: json
  permalink :: "string option"
  source :: "string option"

text \<open>
  What the code takes from its libraries and from the world, for one request:
  \<^item> \<open>get_json url\<close>: \<^verbatim>\<open>session.get(url)\<close>, \<^verbatim>\<open>raise_for_status()\<close>, \<^verbatim>\<open>response.json()\<close>;
  \<^item> \<open>get_soup url\<close>: \<^verbatim>\<open>session.get(url)\<close>, \<^verbatim>\<open>raise_for_status()\<close>, \<^verbatim>\<open>BeautifulSoup(...)\<close>,
    the document given by \<^verbatim>\<open>soup.select\<close>: for a selector, the matched elements in document
    order, each element given by its \<^verbatim>\<open>get_text(strip=True)\<close>;
  \<^item> \<open>fromtimestamp\<close>: \<^verbatim>\<open>datetime.fromtimestamp\<close>, which raises on a value that is not a
    number or is out of the platform's range;
  \<^item> \<open>py_str\<close>: \<^verbatim>\<open>str()\<close> of a value that is not a str, as an f-string formats it;
  \<^item> \<open>netloc_lower url\<close>: \<^verbatim>\<open>urlparse(url).netloc.lower()\<close>.
\<close>

type_synonym soup = "string \<Rightarrow> string list"

record env =
  get_json :: "string \<Rightarrow> error + json"
  get_soup :: "string \<Rightarrow> error + soup"
  fromtimestamp :: "json \<Rightarrow> error + datetime"
  py_str :: "json \<Rightarrow> string"
  netloc_lower :: "string \<Rightarrow> error + string"

section \<open>Operations of Python on payload values\<close>

text \<open>\<^verbatim>\<open>v[k]\<close> with a str key: KeyError on a dict without the key, TypeError on anything
  that is not a dict.\<close>

fun getitem :: "json \<Rightarrow> string \<Rightarrow> error + json" where
  "getitem (JDict kvs) k = (case map_of kvs k of None \<Rightarrow> Inl (KeyError k) | Some v \<Rightarrow> Inr v)"
| "getitem _ k = Inl TypeError"

text \<open>\<^verbatim>\<open>d.get(k, default)\<close> on the items of a dict.\<close>

definition dict_get :: "(string \<times> json) list \<Rightarrow> string \<Rightarrow> json \<Rightarrow> json" where
  "dict_get kvs k dflt = (case map_of kvs k of None \<Rightarrow> dflt | Some v \<Rightarrow> v)"

text \<open>The truth value of \<^verbatim>\<open>if v:\<close>.\<close>

fun truthy :: "json \<Rightarrow> bool" where
  "truthy JNull = False"
| "truthy (JBool b) = b"
| "truthy (JInt n) = (n \<noteq> 0)"
| "truthy (JFloat m e) = (m \<noteq> 0)"
| "truthy (JStr s) = (s \<noteq> [])"
| "truthy (JList xs) = (xs \<noteq> [])"
| "truthy (JDict kvs) = (kvs \<noteq> [])"

fun is_dict :: "json \<Rightarrow> bool" where
  "is_dict (JDict kvs) = True"
| "is_dict _ = False"

text \<open>What \<^verbatim>\<open>for x in v\<close> runs over: the elements of a list, the characters of a str (each
  a str of length one), the keys of a dict; anything else is not iterable.\<close>

fun py_iter :: "json \<Rightarrow> error + json list" where
  "py_iter (JList xs) = Inr xs"
| "py_iter (JStr s) = Inr (map (\<lambda>c. JStr [c]) s)"
| "py_iter (JDict kvs) = Inr (map (\<lambda>kv. JStr (fst kv)) kvs)"
| "py_iter _ = Inl TypeError"

text \<open>The value inside the braces of an f-string.\<close>

fun format_value :: "env \<Rightarrow> json \<Rightarrow> string" where
  "format_value env (JStr s) = s"
| "format_value env v = py_str env v"

section \<open>The Reddit tree parser\<close>

text \<open>
  The dict literal of lines 122 to 130: the first \<^verbatim>\<open>.get\<close> raises AttributeError when
  \<^verbatim>\<open>comment_data\<close> is not a dict (only a dict has the method), and
  \<^verbatim>\<open>datetime.fromtimestamp\<close> may raise; nothing else does.
\<close>

fun new_comment :: "env \<Rightarrow> json \<Rightarrow> nat \<Rightarrow> error + comment" where
  "new_comment env (JDict kvs) d =
     (case fromtimestamp env (dict_get kvs ''created_utc'' (JInt 0)) of
        Inl e \<Rightarrow> Inl e
      | Inr t \<Rightarrow> Inr
          \<lparr> author = dict_get kvs ''author'' (JStr ''[deleted]''),
            comment_text = dict_get kvs ''body'' (JStr ''[deleted]''),
            score = dict_get kvs ''score'' (JInt 0),
            created_utc = t,
            depth = d,
            ident = dict_get kvs ''id'' (JStr []),
            permalink = Some (''https://reddit.com'' @
              format_value env (dict_get kvs ''permalink'' (JStr []))),
            source = None \<rparr>)"
| "new_comment env _ d = Inl AttributeError"

text \<open>
  Lines 133 to 135: the values the loop over the replies runs over, none when the
  \<^verbatim>\<open>replies\<close> key is absent, its value is falsy, or it is not a dict. It is reached only
  after the dict literal was built, that is with \<^verbatim>\<open>comment_data\<close> a dict.
\<close>

fun reply_children :: "json \<Rightarrow> error + json list" where
  "reply_children (JDict kvs) =
     (case map_of kvs ''replies'' of
        None \<Rightarrow> Inr []
      | Some replies \<Rightarrow>
          if truthy replies then
            if is_dict replies then
              (case getitem replies ''data'' of
                 Inl e \<Rightarrow> Inl e
               | Inr rd \<Rightarrow>
                   (case getitem rd ''children'' of
                      Inl e \<Rightarrow> Inl e
                    | Inr ch \<Rightarrow> py_iter ch))
            else Inr []
          else Inr [])"
| "reply_children _ = Inl AttributeError"

subsection \<open>A measure for the recursion of the walk\<close>

text \<open>A measure for the recursion of the walk.\<close>

fun weight :: "json \<Rightarrow> nat" where
  "weight (JStr s) = Suc (length s)"
| "weight (JList xs) = Suc (sum_list (map (\<lambda>x. Suc (weight x)) xs))"
| "weight (JDict kvs) = Suc (sum_list (map (\<lambda>kv. Suc (weight (snd kv))) kvs))"
| "weight _ = 0"

fun node_weight :: "json \<Rightarrow> nat" where
  "node_weight (JDict kvs) = 2 * weight (JDict kvs)"
| "node_weight _ = 0"

definition nodes_weight :: "json list \<Rightarrow> nat" where
  "nodes_weight xs = Suc (sum_list (map (\<lambda>x. Suc (node_weight x)) xs))"

lemma weight_map_of: "map_of kvs k = Some v \<Longrightarrow> weight v < weight (JDict kvs)"
  by (induction kvs) (auto split: if_splits)

lemma weight_getitem: "getitem n k = Inr v \<Longrightarrow> weight v < weight n"
  by (cases n) (auto split: option.splits dest: weight_map_of)

lemma node_weight_le: "node_weight x \<le> 2 * weight x"
  by (cases x) auto

lemma nodes_weight_list: "nodes_weight xs \<le> 2 * weight (JList xs)"
proof -
  have "sum_list (map (\<lambda>x. Suc (node_weight x)) xs) \<le> 2 * sum_list (map (\<lambda>x. Suc (weight x)) xs)"
  proof (induction xs)
    case (Cons a xs)
    then show ?case using node_weight_le [of a] by simp
  qed simp
  then show ?thesis by (simp add: nodes_weight_def)
qed

lemma nodes_weight_iter: "py_iter ch = Inr xs \<Longrightarrow> nodes_weight xs \<le> 2 * weight ch"
proof (cases ch)
  case (JList ys)
  assume "py_iter ch = Inr xs"
  with JList show ?thesis using nodes_weight_list [of ys] by simp
next
  case (JStr s)
  assume "py_iter ch = Inr xs"
  with JStr show ?thesis by (auto simp: nodes_weight_def comp_def sum_list_triv)
next
  case (JDict kvs)
  assume "py_iter ch = Inr xs"
  moreover have "length kvs \<le> sum_list (map (\<lambda>kv. Suc (weight (snd kv))) kvs)"
    by (induction kvs) auto
  ultimately show ?thesis using JDict by (auto simp: nodes_weight_def comp_def sum_list_triv)
qed auto

lemma nodes_weight_replies:
  assumes "reply_children cd = Inr xs"
  shows "nodes_weight xs \<le> 2 * weight cd"
proof (cases cd)
  case (JDict kvs)
  show ?thesis
  proof (cases "map_of kvs ''replies''")
    case None
    with assms JDict show ?thesis by (simp add: nodes_weight_def)
  next
    case (Some replies)
    show ?thesis
    proof (cases "truthy replies \<and> is_dict replies")
      case False
      with assms JDict Some show ?thesis by (auto simp: nodes_weight_def split: if_splits)
    next
      case True
      with assms JDict Some obtain rd ch where
        rd: "getitem replies ''data'' = Inr rd" and ch: "getitem rd ''children'' = Inr ch"
        and it: "py_iter ch = Inr xs"
        by (auto split: sum.splits)
      have "weight ch < weight cd"
        using weight_getitem [OF ch] weight_getitem [OF rd] weight_map_of [OF Some] JDict
        by simp
      with nodes_weight_iter [OF it] show ?thesis by simp
    qed
  qed
qed (use assms in auto)

lemma nodes_weight_node:
  assumes "getitem obj ''data'' = Inr cd" and "reply_children cd = Inr xs"
  shows "nodes_weight xs < node_weight obj"
proof -
  from assms(1) obtain kvs where obj: "obj = JDict kvs" by (cases obj) auto
  have "weight cd < weight obj" by (rule weight_getitem [OF assms(1)])
  with nodes_weight_replies [OF assms(2)] obj show ?thesis by simp
qed

subsection \<open>The walk and the operation\<close>

text \<open>
  \<^verbatim>\<open>parse_comment\<close> (lines 119 to 136) and the loops that call it (lines 135 and 138).
  The list \<^verbatim>\<open>comments\<close> that the closure appends to is passed along. A run that raises
  is \<open>Inl\<close> of the exception and the list as it stood then; a run that returns is
  \<open>Inr\<close> of the list. The interpreter's limits (recursion depth, memory) are not part of
  the model: the recursion is as deep as the thread is.
\<close>

type_synonym walk = "(error \<times> comment list) + comment list"

function parse_comment :: "env \<Rightarrow> json \<Rightarrow> nat \<Rightarrow> comment list \<Rightarrow> walk"
  and parse_each :: "env \<Rightarrow> json list \<Rightarrow> nat \<Rightarrow> comment list \<Rightarrow> walk"
where
  "parse_comment env comment_obj d comments =
     (case getitem comment_obj ''kind'' of
        Inl e \<Rightarrow> Inl (e, comments)
      | Inr kind \<Rightarrow>
          if kind = JStr ''t1'' then
            (case getitem comment_obj ''data'' of
               Inl e \<Rightarrow> Inl (e, comments)
             | Inr comment_data \<Rightarrow>
                 (case new_comment env comment_data d of
                    Inl e \<Rightarrow> Inl (e, comments)
                  | Inr c \<Rightarrow>
                      (case reply_children comment_data of
                         Inl e \<Rightarrow> Inl (e, comments @ [c])
                       | Inr replies \<Rightarrow> parse_each env replies (d + 1) (comments @ [c]))))
          else Inr comments)"
| "parse_each env [] d comments = Inr comments"
| "parse_each env (reply # rest) d comments =
     (case parse_comment env reply d comments of
        Inl x \<Rightarrow> Inl x
      | Inr comments' \<Rightarrow> parse_each env rest d comments')"
  by pat_completeness auto
termination
proof (relation "measure (\<lambda>a. case a of Inl (env, obj, d, cs) \<Rightarrow> node_weight obj
                                        | Inr (env, xs, d, cs) \<Rightarrow> nodes_weight xs)")
  show "wf (measure (\<lambda>a. case a of Inl (env, obj, d, cs) \<Rightarrow> node_weight obj
                                        | Inr (env, xs, d, cs) \<Rightarrow> nodes_weight xs))"
    by simp
qed (auto simp: nodes_weight_def dest: nodes_weight_node)
declare parse_comment.simps [simp del]

text \<open>Line 106: \<^verbatim>\<open>url.endswith('.json')\<close>; line 107: \<^verbatim>\<open>url.rstrip('/')\<close>.\<close>

definition endswith :: "string \<Rightarrow> string \<Rightarrow> bool" where
  "endswith s suf = (length suf \<le> length s \<and> drop (length s - length suf) s = suf)"

definition rstrip_slash :: "string \<Rightarrow> string" where
  "rstrip_slash s = rev (dropWhile (\<lambda>c. c = CHR ''/'') (rev s))"

definition json_url :: "string \<Rightarrow> string" where
  "json_url url = (if \<not> endswith url ''.json'' then rstrip_slash url @ ''.json'' else url)"

text \<open>
  The body of the \<^verbatim>\<open>try\<close> block of \<^verbatim>\<open>extract_reddit_comments\<close> (lines 105 to 141), with
  \<^verbatim>\<open>comments\<close> as it stood when an exception was raised.
\<close>

definition reddit_body :: "env \<Rightarrow> string \<Rightarrow> walk" where
  "reddit_body env url =
     (case get_json env (json_url url) of
        Inl e \<Rightarrow> Inl (e, [])
      | Inr data \<Rightarrow>
          (case data of
             JList xs \<Rightarrow>
               if length xs > 1 then
                 (case getitem (xs ! 1) ''data'' of
                    Inl e \<Rightarrow> Inl (e, [])
                  | Inr ld \<Rightarrow>
                      (case getitem ld ''children'' of
                         Inl e \<Rightarrow> Inl (e, [])
                       | Inr comments_data \<Rightarrow>
                           (case py_iter comments_data of
                              Inl e \<Rightarrow> Inl (e, [])
                            | Inr nodes \<Rightarrow> parse_each env nodes 0 [])))
               else Inr []
           | _ \<Rightarrow> Inr []))"

text \<open>
  What the caller sees: the message given to \<^verbatim>\<open>st.error\<close>, if any (its fixed prefix and
  the exception it formats), and the list returned. The handler of line 143 catches every
  exception of the body and returns a fresh empty list.
\<close>

datatype diagnostic = StError string error

definition extract_reddit_comments :: "env \<Rightarrow> string \<Rightarrow> diagnostic option \<times> comment list" where
  "extract_reddit_comments env url =
     (case reddit_body env url of
        Inl (e, built) \<Rightarrow> (Some (StError ''Error extracting Reddit comments: '' e), [])
      | Inr comments \<Rightarrow> (None, comments))"

section \<open>The generic HTML extractor\<close>

text \<open>\<^verbatim>\<open>str(i)\<close> of a natural number, for \<^verbatim>\<open>f'generic_{i}'\<close>.\<close>

function str_nat :: "nat \<Rightarrow> string" where
  "str_nat n = (if n < 10 then [char_of (48 + n)] else str_nat (n div 10) @ [char_of (48 + n mod 10)])"
  by pat_completeness auto
termination
  by (relation "measure id") auto
declare str_nat.simps [simp del]

text \<open>Line 171: the text cut to 500 characters, with the marker when it was cut.\<close>

definition truncate :: "string \<Rightarrow> string" where
  "truncate t = (if length t > 500 then take 500 t @ ''...'' else t)"

text \<open>The dict literal of lines 169 to 177; \<open>now\<close> is the reading of \<^verbatim>\<open>datetime.now()\<close>.\<close>

definition generic_comment :: "string \<Rightarrow> nat \<Rightarrow> string \<Rightarrow> datetime \<Rightarrow> comment" where
  "generic_comment selector i t now =
     \<lparr> author = JStr ''Unknown'',
       comment_text = JStr (truncate t),
       score = JNull,
       created_utc = now,
       depth = 0,
       ident = JStr (''generic_'' @ str_nat i),
       permalink = None,
       source = Some selector \<rparr>"

text \<open>
  The clock: \<open>clock k\<close> is what the call number \<open>k\<close> of \<^verbatim>\<open>datetime.now()\<close> in this run
  returns. The state of the loops is \<^verbatim>\<open>comments\<close> and the number of calls made so far.
\<close>

type_synonym clock = "nat \<Rightarrow> datetime"

text \<open>The inner loop (lines 166 to 177) over \<^verbatim>\<open>enumerate(comment_elements[:50])\<close>.\<close>

fun scan_elements :: "clock \<Rightarrow> string \<Rightarrow> (nat \<times> string) list \<Rightarrow> comment list \<times> nat
    \<Rightarrow> comment list \<times> nat" where
  "scan_elements clock selector [] st = st"
| "scan_elements clock selector ((i, t) # rest) (comments, k) =
     (if length t > 10
      then scan_elements clock selector rest
             (comments @ [generic_comment selector i t (clock k)], Suc k)
      else scan_elements clock selector rest (comments, k))"

text \<open>The outer loop (lines 163 to 179), with its \<^verbatim>\<open>break\<close>.\<close>

fun try_selectors :: "clock \<Rightarrow> soup \<Rightarrow> string list \<Rightarrow> comment list \<times> nat \<Rightarrow> comment list \<times> nat" where
  "try_selectors clock soup [] st = st"
| "try_selectors clock soup (selector # rest) st =
     (let comment_elements = soup selector in
      if comment_elements \<noteq> [] then
        (let st' = scan_elements clock selector (enumerate 0 (take 50 comment_elements)) st in
         if fst st' \<noteq> [] then st' else try_selectors clock soup rest st')
      else try_selectors clock soup rest st)"

definition comment_selectors :: "string list" where
  "comment_selectors =
     [''.comment'', ''.comment-item'', ''.comment-content'',
      ''[class*=\"comment\"]'', ''[id*=\"comment\"]'',
      ''.reply'', ''.response'', ''.discussion-item'']"

definition extract_generic_comments :: "clock \<Rightarrow> env \<Rightarrow> string \<Rightarrow> diagnostic option \<times> comment list" where
  "extract_generic_comments clock env url =
     (case get_soup env url of
        Inl e \<Rightarrow> (Some (StError ''Error extracting generic comments: '' e), [])
      | Inr soup \<Rightarrow> (None, fst (try_selectors clock soup comment_selectors ([], 0))))"

section \<open>The dispatcher\<close>

text \<open>\<^verbatim>\<open>sub in s\<close> on two strs.\<close>

fun contains :: "string \<Rightarrow> string \<Rightarrow> bool" where
  "contains sub [] = (sub = [])"
| "contains sub (c # s) = (take (length sub) (c # s) = sub \<or> contains sub s)"

text \<open>\<^verbatim>\<open>extract_comments\<close> (lines 187 to 194). \<^verbatim>\<open>urlparse\<close> is outside any \<^verbatim>\<open>try\<close>.\<close>

definition extract_comments :: "clock \<Rightarrow> env \<Rightarrow> string \<Rightarrow> error + diagnostic option \<times> comment list" where
  "extract_comments clock env url =
     (case netloc_lower env url of
        Inl e \<Rightarrow> Inl e
      | Inr domain \<Rightarrow>
          if contains ''reddit.com'' domain
          then Inr (extract_reddit_comments env url)
          else Inr (extract_generic_comments clock env url))"

section \<open>The comment tree of a payload\<close>

text \<open>
  The tree the properties are stated on, read off the payload alone: a node is a comment
  when its \<^verbatim>\<open>kind\<close> is \<^verbatim>\<open>t1\<close>; a listing is a dict with a list at \<^verbatim>\<open>data.children\<close>; the
  replies of a node are the children of the listing at its \<^verbatim>\<open>data.replies\<close>, if there is one.
\<close>

definition is_comment :: "json \<Rightarrow> bool" where
  "is_comment n = (getitem n ''kind'' = Inr (JStr ''t1''))"

definition listing_children :: "json \<Rightarrow> json list option" where
  "listing_children l =
     (case getitem l ''data'' of
        Inl e \<Rightarrow> None
      | Inr ld \<Rightarrow> (case getitem ld ''children'' of Inr (JList xs) \<Rightarrow> Some xs | _ \<Rightarrow> None))"

definition raw_replies :: "json \<Rightarrow> json list" where
  "raw_replies n =
     (case getitem n ''data'' of
        Inl e \<Rightarrow> []
      | Inr cd \<Rightarrow>
          (case getitem cd ''replies'' of
             Inl e \<Rightarrow> []
           | Inr r \<Rightarrow> (case listing_children r of None \<Rightarrow> [] | Some xs \<Rightarrow> xs)))"

lemma weight_member: "x \<in> set xs \<Longrightarrow> weight x < weight (JList xs)"
  by (induction xs) auto

lemma listing_children_weight:
  "listing_children l = Some xs \<Longrightarrow> x \<in> set xs \<Longrightarrow> weight x < weight l"
  unfolding listing_children_def
  by (auto split: sum.splits json.splits dest!: weight_getitem weight_member)

lemma raw_replies_weight:
  assumes "x \<in> set (raw_replies n)"
  shows "weight x < weight n"
proof -
  from assms obtain cd r xs where cd: "getitem n ''data'' = Inr cd"
    and r: "getitem cd ''replies'' = Inr r" and xs: "listing_children r = Some xs" and x: "x \<in> set xs"
    unfolding raw_replies_def by (force split: sum.splits option.splits)
  show ?thesis
    using weight_getitem [OF cd] weight_getitem [OF r] listing_children_weight [OF xs x] by simp
qed

text \<open>The number of \<^verbatim>\<open>t1\<close> nodes at and below a node, whatever the kinds on the way.\<close>

function count_t1_spec :: "json \<Rightarrow> nat" where
  "count_t1_spec n = (if is_comment n then 1 else 0) + sum_list (map count_t1_spec (raw_replies n))"
  by pat_completeness auto
termination
  by (relation "measure weight") (auto dest: raw_replies_weight)

text \<open>
  Pre-order listing of the comments with their nesting level: a comment, then the listing
  of each of its replies in source order. A node that is not a comment is skipped with
  everything below it.
\<close>

function preorder_spec :: "nat \<Rightarrow> json \<Rightarrow> (json \<times> nat) list" where
  "preorder_spec d n =
     (if is_comment n then (n, d) # concat (map (preorder_spec (Suc d)) (raw_replies n)) else [])"
  by pat_completeness auto
termination
  by (relation "measure (\<lambda>(d, n). weight n)") (auto dest: raw_replies_weight)

text \<open>The same listing, each comment with the comments above it (nearest first).\<close>

function ancestors_spec :: "json list \<Rightarrow> json \<Rightarrow> (json \<times> json list) list" where
  "ancestors_spec anc n =
     (if is_comment n then (n, anc) # concat (map (ancestors_spec (n # anc)) (raw_replies n)) else [])"
  by pat_completeness auto
termination
  by (relation "measure (\<lambda>(anc, n). weight n)") (auto dest: raw_replies_weight)

text \<open>
  A well-formed child of a listing: a dict with a \<^verbatim>\<open>kind\<close> and a dict at \<^verbatim>\<open>data\<close>. A comment
  has a timestamp that \<^verbatim>\<open>datetime.fromtimestamp\<close> accepts, and its \<^verbatim>\<open>replies\<close> are absent,
  the empty string or a listing of well-formed children. A node of another kind (a
  \<^verbatim>\<open>more\<close> stub) carries no \<^verbatim>\<open>replies\<close>.
\<close>

function valid_node :: "env \<Rightarrow> json \<Rightarrow> bool" where
  "valid_node env n =
     (case getitem n ''kind'' of
        Inl e \<Rightarrow> False
      | Inr kind \<Rightarrow>
          (case getitem n ''data'' of
             Inr (JDict kvs) \<Rightarrow>
               if kind = JStr ''t1'' then
                 (case fromtimestamp env (dict_get kvs ''created_utc'' (JInt 0)) of
                    Inl e \<Rightarrow> False | Inr t \<Rightarrow> True) \<and>
                 (case map_of kvs ''replies'' of
                    None \<Rightarrow> True
                  | Some r \<Rightarrow>
                      r = JStr [] \<or>
                      (case listing_children r of
                         None \<Rightarrow> False
                       | Some xs \<Rightarrow> list_all (valid_node env) xs))
               else map_of kvs ''replies'' = None
           | _ \<Rightarrow> False))"
  by pat_completeness auto
termination
  apply (relation "measure (\<lambda>(env, n). weight n)")
   apply simp
  subgoal for env n kind cd kvs r xs x
    using weight_getitem [of n "''data''" cd] weight_map_of [of kvs "''replies''" r]
      listing_children_weight [of r xs x]
    by simp
  done
declare count_t1_spec.simps [simp del]
declare preorder_spec.simps [simp del]
declare ancestors_spec.simps [simp del]
declare valid_node.simps [simp del]

text \<open>The record the code builds for a node at a nesting level.\<close>

definition record_of :: "env \<Rightarrow> json \<times> nat \<Rightarrow> error + comment" where
  "record_of env nd =
     (case getitem (fst nd) ''data'' of
        Inl e \<Rightarrow> Inl e
      | Inr cd \<Rightarrow> new_comment env cd (snd nd))"

text \<open>The relative permalink of a node as the f-string of line 129 renders it.\<close>

definition relative_permalink :: "env \<Rightarrow> json \<Rightarrow> string" where
  "relative_permalink env n =
     (case getitem n ''data'' of
        Inr (JDict kvs) \<Rightarrow>
          (case map_of kvs ''permalink'' of
             None \<Rightarrow> []
           | Some (JStr s) \<Rightarrow> s
           | Some v \<Rightarrow> py_str env v)
      | _ \<Rightarrow> [])"

text \<open>The body of a node as the Reddit parser stores it.\<close>

definition node_body :: "json \<Rightarrow> json" where
  "node_body n =
     (case getitem n ''data'' of
        Inr (JDict kvs) \<Rightarrow> dict_get kvs ''body'' (JStr ''[deleted]'')
      | _ \<Rightarrow> JNull)"

definition text_length :: "comment \<Rightarrow> nat" where
  "text_length c = (case comment_text c of JStr t \<Rightarrow> length t | _ \<Rightarrow> 0)"

section \<open>What the generic extractor returns, and a re-run\<close>

text \<open>
  The candidates of a selector that survive: of its first 50 matched elements, with their
  indices, those whose text is longer than 10 characters.
\<close>

definition survivors :: "soup \<Rightarrow> string \<Rightarrow> (nat \<times> string) list" where
  "survivors soup selector =
     filter (\<lambda>it. length (snd it) > 10) (enumerate 0 (take 50 (soup selector)))"

text \<open>
  First match wins: the records of the first selector of the list that has a survivor, one
  per survivor in document order, stamped with successive readings of the clock; none when
  no selector has a survivor.
\<close>

definition first_match_spec :: "clock \<Rightarrow> soup \<Rightarrow> string list \<Rightarrow> comment list" where
  "first_match_spec clock soup selectors =
     (case find (\<lambda>s. survivors soup s \<noteq> []) selectors of
        None \<Rightarrow> []
      | Some s \<Rightarrow>
          map (\<lambda>jt. generic_comment s (fst (snd jt)) (snd (snd jt)) (clock (fst jt)))
            (enumerate 0 (survivors soup s)))"

text \<open>A result with the timestamps of its records blanked.\<close>

definition erase_time :: "comment \<Rightarrow> comment" where
  "erase_time c = c\<lparr>created_utc := Datetime 0\<rparr>"

definition without_time ::
    "error + diagnostic option \<times> comment list \<Rightarrow> error + diagnostic option \<times> comment list" where
  "without_time r = (case r of Inl e \<Rightarrow> Inl e | Inr (diag, cs) \<Rightarrow> Inr (diag, map erase_time cs))"

section \<open>Example payloads and documents\<close>

text \<open>A child of a listing, and a listing, in the shape the endpoint gives them.\<close>

definition node :: "string \<Rightarrow> (string \<times> json) list \<Rightarrow> json" where
  "node kind items = JDict [(''kind'', JStr kind), (''data'', JDict items)]"

definition listing :: "json list \<Rightarrow> json" where
  "listing xs = JDict [(''kind'', JStr ''Listing''), (''data'', JDict [(''children'', JList xs)])]"

definition ex_url :: string where
  "ex_url = ''https://www.reddit.com/r/x/comments/1/''"

text \<open>An environment that serves one payload at the JSON address of \<open>ex_url\<close>.\<close>

definition ex_env :: "json \<Rightarrow> env" where
  "ex_env payload =
     \<lparr> get_json = (\<lambda>u. if u = ''https://www.reddit.com/r/x/comments/1.json''
                         then Inr payload else Inl HTTPError),
       get_soup = (\<lambda>u. Inl HTTPError),
       fromtimestamp = (\<lambda>v. case v of JInt n \<Rightarrow> Inr (Datetime n) | _ \<Rightarrow> Inl TypeError),
       py_str = (\<lambda>v. ''None''),
       netloc_lower = (\<lambda>u. Inr ''www.reddit.com'') \<rparr>"

text \<open>Two top-level comments; the first has a reply and a \<^verbatim>\<open>more\<close> stub below it.\<close>

definition ex_nodes :: "json list" where
  "ex_nodes =
     [node ''t1'' [(''author'', JStr ''alice''), (''body'', JStr ''hi''), (''score'', JInt 5),
          (''created_utc'', JInt 0), (''id'', JStr ''c1''), (''permalink'', JStr ''/r/x/c1''),
          (''replies'', listing
             [node ''t1'' [(''author'', JStr ''bob''), (''body'', JStr ''yo''),
                 (''permalink'', JStr ''/r/x/c2''), (''replies'', JStr [])],
              node ''more'' [(''count'', JInt 3), (''children'', JList [JStr ''c9''])]])],
      node ''t1'' [(''author'', JStr ''carol'')]]"

definition ex_thread :: json where
  "ex_thread = JList [listing [], listing ex_nodes]"

text \<open>A single comment without a permalink.\<close>

definition ex_no_permalink :: json where
  "ex_no_permalink = JList [listing [], listing [node ''t1'' [(''author'', JStr ''carol'')]]]"

text \<open>A node of kind \<^verbatim>\<open>more\<close> with a comment in a listing of replies below it.\<close>

definition ex_nested_in_stub :: json where
  "ex_nested_in_stub =
     node ''more'' [(''replies'', listing [node ''t1'' [(''author'', JStr ''dave'')]])]"

text \<open>A comment followed by a child without the \<^verbatim>\<open>kind\<close> key.\<close>

definition ex_broken_nodes :: "json list" where
  "ex_broken_nodes =
     [node ''t1'' [(''author'', JStr ''alice''), (''body'', JStr ''hi'')],
      JDict [(''data'', JDict [(''author'', JStr ''bob'')])]]"

definition ex_broken :: json where
  "ex_broken = JList [listing [], listing ex_broken_nodes]"

text \<open>The record of the first of them.\<close>

definition ex_alice :: comment where
  "ex_alice =
     \<lparr> author = JStr ''alice'', comment_text = JStr ''hi'', score = JInt 0,
       created_utc = Datetime 0, depth = 0, ident = JStr [],
       permalink = Some ''https://reddit.com'', source = None \<rparr>"

text \<open>A comment with a body of 600 characters, and a page with one such element.\<close>

definition ex_long :: json where
  "ex_long = JList [listing [], listing [node ''t1'' [(''body'', JStr (replicate 600 CHR ''a''))]]]"

definition ex_long_soup :: soup where
  "ex_long_soup selector = (if selector = ''.comment'' then [replicate 600 CHR ''a''] else [])"

text \<open>
  A page where \<^verbatim>\<open>.comment\<close> matches two buttons, \<^verbatim>\<open>.reply\<close> two comments and a short
  text, and \<^verbatim>\<open>.response\<close> something else; an environment that serves a page; a clock that
  starts at a given time and advances by one at each reading.
\<close>

definition ex_soup :: soup where
  "ex_soup selector =
     (if selector = ''.comment'' then [''Reply'', ''Share'']
      else if selector = ''.reply'' then [''first comment of the page'', ''ok'', ''second comment of the page'']
      else if selector = ''.response'' then [''a response that is never reached'']
      else [])"

definition ex_site :: "soup \<Rightarrow> env" where
  "ex_site soup =
     \<lparr> get_json = (\<lambda>u. Inl HTTPError),
       get_soup = (\<lambda>u. Inr soup),
       fromtimestamp = (\<lambda>v. case v of JInt n \<Rightarrow> Inr (Datetime n) | _ \<Rightarrow> Inl TypeError),
       py_str = (\<lambda>v. ''None''),
       netloc_lower = (\<lambda>u. Inr ''blog.example.com'') \<rparr>"

definition ex_clock :: "int \<Rightarrow> clock" where
  "ex_clock start k = Datetime (start + int k)"

section \<open>The walk emits the pre-order listing\<close>

lemma parse_each_str:
  assumes "xs \<noteq> []" and "\<forall>x\<in>set xs. \<exists>s. x = JStr s"
  shows "\<exists>x. parse_each env xs d cs = Inl x"
proof -
  from assms obtain s rest where "xs = JStr s # rest" by (cases xs) auto
  then show ?thesis by (simp add: parse_comment.simps)
qed

lemma reply_children_raw:
  assumes cd: "getitem n ''data'' = Inr cd" and xs: "reply_children cd = Inr xs"
  shows "xs = raw_replies n \<or> (xs \<noteq> [] \<and> (\<forall>x\<in>set xs. \<exists>s. x = JStr s))"
proof (cases cd)
  case (JDict kvs)
  show ?thesis
  proof (cases "map_of kvs ''replies''")
    case None
    with cd xs JDict show ?thesis by (simp add: raw_replies_def)
  next
    case (Some r)
    show ?thesis
    proof (cases "truthy r \<and> is_dict r")
      case False
      then have "listing_children r = None"
        by (cases r) (auto simp: listing_children_def)
      moreover from False xs JDict Some have "xs = []" by (auto split: if_splits)
      ultimately show ?thesis using cd JDict Some by (simp add: raw_replies_def)
    next
      case True
      with xs JDict Some obtain rd ch where
        rd: "getitem r ''data'' = Inr rd" and ch: "getitem rd ''children'' = Inr ch"
        and it: "py_iter ch = Inr xs"
        by (auto split: sum.splits)
      have raw: "raw_replies n = (case ch of JList ys \<Rightarrow> ys | _ \<Rightarrow> [])"
        using cd JDict Some rd ch by (simp add: raw_replies_def listing_children_def split: json.splits)
      show ?thesis
      proof (cases ch)
        case (JList ys)
        with it raw show ?thesis by simp
      next
        case (JStr s)
        with it raw show ?thesis by (cases s) auto
      next
        case (JDict kvs')
        with it raw show ?thesis by (cases kvs') auto
      qed (use it in auto)
    qed
  qed
qed (use xs in auto)

lemma walk_preorder:
  "parse_comment env n d cs = Inr cs' \<Longrightarrow>
     \<exists>new. cs' = cs @ new \<and> map Inr new = map (record_of env) (preorder_spec d n)"
  "parse_each env xs d cs = Inr cs' \<Longrightarrow>
     \<exists>new. cs' = cs @ new \<and> map Inr new = map (record_of env) (concat (map (preorder_spec d) xs))"
proof (induction env n d cs and env xs d cs arbitrary: cs' and cs' rule: parse_comment_parse_each.induct)
  case (1 env n d cs)
  from "1.prems" obtain kind where kind: "getitem n ''kind'' = Inr kind"
    by (auto simp: parse_comment.simps [of env n] split: sum.splits)
  show ?case
  proof (cases "kind = JStr ''t1''")
    case False
    with "1.prems" kind have "cs' = cs" by (simp add: parse_comment.simps [of env n])
    moreover from False kind have "preorder_spec d n = []"
      by (simp add: preorder_spec.simps [of d n] is_comment_def)
    ultimately show ?thesis by simp
  next
    case True
    with "1.prems" kind obtain cd c replies where
      cd: "getitem n ''data'' = Inr cd" and c: "new_comment env cd d = Inr c"
      and replies: "reply_children cd = Inr replies"
      and run: "parse_each env replies (d + 1) (cs @ [c]) = Inr cs'"
      by (auto simp: parse_comment.simps [of env n] split: sum.splits)
    from "1.IH" [OF kind True cd c replies run] obtain new where
      new: "cs' = (cs @ [c]) @ new"
        "map Inr new = map (record_of env) (concat (map (preorder_spec (d + 1)) replies))"
      by blast
    have "replies = raw_replies n"
      using reply_children_raw [OF cd replies] parse_each_str [of replies env "d + 1" "cs @ [c]"] run
      by auto
    with new True kind cd c have "cs' = cs @ (c # new)"
      "map Inr (c # new) = map (record_of env) (preorder_spec d n)"
      by (simp_all add: preorder_spec.simps [of d n] is_comment_def record_of_def)
    then show ?thesis by blast
  qed
next
  case (2 env d cs)
  then show ?case by simp
next
  case (3 env reply rest d cs)
  from "3.prems" obtain mid where mid: "parse_comment env reply d cs = Inr mid"
    and run: "parse_each env rest d mid = Inr cs'"
    by (auto split: sum.splits)
  from "3.IH"(1) [OF mid] obtain new1 where
    n1: "mid = cs @ new1" "map Inr new1 = map (record_of env) (preorder_spec d reply)" by blast
  from "3.IH"(2) [OF mid run] obtain new2 where
    n2: "cs' = mid @ new2"
      "map Inr new2 = map (record_of env) (concat (map (preorder_spec d) rest))" by blast
  from n1 n2 have "cs' = cs @ (new1 @ new2)"
    "map Inr (new1 @ new2) = map (record_of env) (concat (map (preorder_spec d) (reply # rest)))"
    by simp_all
  then show ?case by blast
qed

lemma reddit_body_listing:
  assumes "get_json env (json_url url) = Inr (JList (post # comments_listing # rest))"
    and "listing_children comments_listing = Some nodes"
  shows "reddit_body env url = parse_each env nodes 0 []"
proof -
  from assms(2) obtain ld where "getitem comments_listing ''data'' = Inr ld"
    "getitem ld ''children'' = Inr (JList nodes)"
    by (auto simp: listing_children_def split: sum.splits json.splits)
  with assms(1) show ?thesis by (simp add: reddit_body_def)
qed

lemma extract_returned:
  assumes "extract_reddit_comments env url = (None, comments)"
  shows "reddit_body env url = Inr comments"
  using assms by (auto simp: extract_reddit_comments_def split: sum.splits)

lemma returned_preorder:
  assumes "get_json env (json_url url) = Inr (JList (post # comments_listing # rest))"
    and "listing_children comments_listing = Some nodes"
    and "extract_reddit_comments env url = (None, comments)"
  shows "map Inr comments = map (record_of env) (concat (map (preorder_spec 0) nodes))"
proof -
  from extract_returned [OF assms(3)] reddit_body_listing [OF assms(1,2)]
  have "parse_each env nodes 0 [] = Inr comments" by simp
  from walk_preorder(2) [OF this] show ?thesis by simp
qed

lemma map_records:
  assumes "map Inr cs = map (record_of env) ps"
    and "\<And>p c. record_of env p = Inr c \<Longrightarrow> f c = g p"
  shows "map f cs = map g ps"
  using assms(1)
proof (induction cs arbitrary: ps)
  case (Cons c cs)
  then obtain p ps' where ps: "ps = p # ps'" by (cases ps) auto
  with Cons.prems have "record_of env p = Inr c" and rest: "map Inr cs = map (record_of env) ps'"
    by simp_all
  with Cons.IH [OF rest] assms(2) ps show ?case by simp
qed simp

lemma record_of_depth: "record_of env p = Inr c \<Longrightarrow> depth c = snd p"
  by (cases p) (auto simp: record_of_def split: sum.splits elim!: new_comment.elims)

lemma record_of_permalink:
  assumes "record_of env p = Inr c"
  shows "permalink c = Some (''https://reddit.com'' @ relative_permalink env (fst p))"
proof -
  from assms obtain kvs where cd: "getitem (fst p) ''data'' = Inr (JDict kvs)"
    and c: "new_comment env (JDict kvs) (snd p) = Inr c"
    by (auto simp: record_of_def split: sum.splits elim: new_comment.elims)
  from c have "permalink c = Some (''https://reddit.com'' @
      format_value env (dict_get kvs ''permalink'' (JStr [])))"
    by (auto split: sum.splits)
  moreover have "format_value env (dict_get kvs ''permalink'' (JStr [])) = relative_permalink env (fst p)"
    using cd by (auto simp: relative_permalink_def dict_get_def split: option.splits json.splits)
  ultimately show ?thesis by simp
qed

lemma record_of_body:
  assumes "record_of env p = Inr c"
  shows "comment_text c = node_body (fst p)"
proof -
  from assms obtain kvs where cd: "getitem (fst p) ''data'' = Inr (JDict kvs)"
    and c: "new_comment env (JDict kvs) (snd p) = Inr c"
    by (auto simp: record_of_def split: sum.splits elim: new_comment.elims)
  from c have "comment_text c = dict_get kvs ''body'' (JStr ''[deleted]'')"
    by (auto split: sum.splits)
  with cd show ?thesis by (simp add: node_body_def)
qed

lemma ancestors_preorder:
  "map (\<lambda>na. (fst na, length (snd na))) (ancestors_spec anc n) = preorder_spec (length anc) n"
proof (induction n arbitrary: anc rule: measure_induct_rule [of weight])
  case (less n)
  show ?case
  proof (cases "is_comment n")
    case False
    then show ?thesis by (simp add: ancestors_spec.simps [of anc n] preorder_spec.simps [of _ n])
  next
    case True
    have "map (\<lambda>na. (fst na, length (snd na))) (ancestors_spec (n # anc) x)
        = preorder_spec (Suc (length anc)) x" if "x \<in> set (raw_replies n)" for x
      using less.IH [OF raw_replies_weight [OF that], of "n # anc"] by simp
    then have eq: "map (\<lambda>x. map (\<lambda>na. (fst na, length (snd na))) (ancestors_spec (n # anc) x)) (raw_replies n)
        = map (preorder_spec (Suc (length anc))) (raw_replies n)"
      by (intro map_cong) simp_all
    from True show ?thesis
      by (simp add: ancestors_spec.simps [of anc n] preorder_spec.simps [of _ n] map_concat comp_def eq)
  qed
qed

section \<open>A well-formed payload is walked to the end\<close>

lemma valid_node_cases:
  assumes "valid_node env n"
  obtains kind kvs where "getitem n ''kind'' = Inr kind" "getitem n ''data'' = Inr (JDict kvs)"
    "kind \<noteq> JStr ''t1'' \<Longrightarrow> map_of kvs ''replies'' = None"
    "kind = JStr ''t1'' \<Longrightarrow> \<exists>t. fromtimestamp env (dict_get kvs ''created_utc'' (JInt 0)) = Inr t"
    "kind = JStr ''t1'' \<Longrightarrow> map_of kvs ''replies'' = None \<or> map_of kvs ''replies'' = Some (JStr []) \<or>
       (\<exists>r xs. map_of kvs ''replies'' = Some r \<and> listing_children r = Some xs \<and> list_all (valid_node env) xs)"
proof -
  from assms obtain kind where k: "getitem n ''kind'' = Inr kind"
    by (cases "getitem n ''kind''") (simp_all add: valid_node.simps [of env n])
  from assms k obtain cd where cd: "getitem n ''data'' = Inr cd"
    by (cases "getitem n ''data''") (simp_all add: valid_node.simps [of env n])
  from assms k cd obtain kvs where kvs: "cd = JDict kvs"
    by (cases cd) (simp_all add: valid_node.simps [of env n])
  show thesis
  proof (rule that [OF k cd [unfolded kvs]])
    assume "kind \<noteq> JStr ''t1''"
    with assms k cd kvs show "map_of kvs ''replies'' = None"
      by (simp add: valid_node.simps [of env n])
  next
    assume "kind = JStr ''t1''"
    with assms k cd kvs show "\<exists>t. fromtimestamp env (dict_get kvs ''created_utc'' (JInt 0)) = Inr t"
      by (simp add: valid_node.simps [of env n] split: sum.splits)
  next
    assume "kind = JStr ''t1''"
    with assms k cd kvs
    show "map_of kvs ''replies'' = None \<or> map_of kvs ''replies'' = Some (JStr []) \<or>
       (\<exists>r xs. map_of kvs ''replies'' = Some r \<and> listing_children r = Some xs \<and> list_all (valid_node env) xs)"
      by (cases "map_of kvs ''replies''")
        (auto simp: valid_node.simps [of env n] split: sum.splits option.splits)
  qed
qed

lemma listing_children_iter:
  assumes "listing_children r = Some xs" and that: "map_of kvs ''replies'' = Some r"
  shows "reply_children (JDict kvs) = Inr xs"
proof -
  from assms(1) obtain rd where rd: "getitem r ''data'' = Inr rd"
    and ch: "getitem rd ''children'' = Inr (JList xs)"
    by (auto simp: listing_children_def split: sum.splits json.splits)
  from rd have "truthy r \<and> is_dict r" by (cases r) auto
  with that rd ch show ?thesis by simp
qed

lemma valid_reply_children:
  assumes "valid_node env n" and "getitem n ''kind'' = Inr (JStr ''t1'')" and "getitem n ''data'' = Inr cd"
  shows "reply_children cd = Inr (raw_replies n) \<and> list_all (valid_node env) (raw_replies n)"
proof -
  from assms(1) obtain kind kvs where k: "getitem n ''kind'' = Inr kind"
    and d: "getitem n ''data'' = Inr (JDict kvs)"
    and r: "kind = JStr ''t1'' \<Longrightarrow> map_of kvs ''replies'' = None \<or> map_of kvs ''replies'' = Some (JStr []) \<or>
       (\<exists>r xs. map_of kvs ''replies'' = Some r \<and> listing_children r = Some xs \<and> list_all (valid_node env) xs)"
    by (rule valid_node_cases) blast
  from d assms(3) have cd: "cd = JDict kvs" by simp
  from k assms(2) have "kind = JStr ''t1''" by simp
  from r [OF this] have "map_of kvs ''replies'' = None \<or> map_of kvs ''replies'' = Some (JStr []) \<or>
       (\<exists>r xs. map_of kvs ''replies'' = Some r \<and> listing_children r = Some xs \<and> list_all (valid_node env) xs)" .
  then show ?thesis
  proof (elim disjE exE conjE)
    assume "map_of kvs ''replies'' = None"
    with d cd show ?thesis by (simp add: raw_replies_def)
  next
    assume "map_of kvs ''replies'' = Some (JStr [])"
    with d cd show ?thesis by (simp add: raw_replies_def listing_children_def)
  next
    fix r xs
    assume 3: "map_of kvs ''replies'' = Some r" "listing_children r = Some xs"
      "list_all (valid_node env) xs"
    from 3(1,2) d have "raw_replies n = xs" by (simp add: raw_replies_def)
    with listing_children_iter [OF 3(2,1)] 3(3) cd show ?thesis by simp
  qed
qed

lemma valid_walk:
  "valid_node env n \<Longrightarrow> \<exists>cs'. parse_comment env n d cs = Inr cs'"
  "list_all (valid_node env) xs \<Longrightarrow> \<exists>cs'. parse_each env xs d cs = Inr cs'"
proof (induction env n d cs and env xs d cs rule: parse_comment_parse_each.induct)
  case (1 env n d cs)
  from "1.prems" obtain kind kvs where k: "getitem n ''kind'' = Inr kind"
    and cd: "getitem n ''data'' = Inr (JDict kvs)"
    and ts: "kind = JStr ''t1'' \<Longrightarrow> \<exists>t. fromtimestamp env (dict_get kvs ''created_utc'' (JInt 0)) = Inr t"
    by (rule valid_node_cases) blast
  show ?case
  proof (cases "kind = JStr ''t1''")
    case False
    with k show ?thesis by (simp add: parse_comment.simps [of env n])
  next
    case True
    from ts [OF True] obtain c where c: "new_comment env (JDict kvs) d = Inr c" by auto
    from True k have k1: "getitem n ''kind'' = Inr (JStr ''t1'')" by simp
    from valid_reply_children [OF "1.prems" k1 cd]
    have rc: "reply_children (JDict kvs) = Inr (raw_replies n)"
      and va: "list_all (valid_node env) (raw_replies n)" by simp_all
    from "1.IH" [OF k True cd c rc va]
    obtain cs' where "parse_each env (raw_replies n) (d + 1) (cs @ [c]) = Inr cs'" by blast
    with k True cd c rc show ?thesis by (simp add: parse_comment.simps [of env n])
  qed
next
  case (2 env d cs)
  then show ?case by simp
next
  case (3 env reply rest d cs)
  from "3.prems" have v1: "valid_node env reply" and v2: "list_all (valid_node env) rest" by simp_all
  from "3.IH"(1) [OF v1] obtain mid where mid: "parse_comment env reply d cs = Inr mid" by blast
  from "3.IH"(2) [OF mid v2] obtain cs' where "parse_each env rest d mid = Inr cs'" by blast
  with mid show ?case by simp
qed

lemma valid_not_comment:
  assumes "valid_node env n" and "\<not> is_comment n"
  shows "raw_replies n = []"
proof -
  from assms(1) obtain kind kvs where k: "getitem n ''kind'' = Inr kind"
    and d: "getitem n ''data'' = Inr (JDict kvs)"
    and r: "kind \<noteq> JStr ''t1'' \<Longrightarrow> map_of kvs ''replies'' = None"
    by (rule valid_node_cases) blast
  from k assms(2) have "kind \<noteq> JStr ''t1''" by (simp add: is_comment_def)
  from r [OF this] d show ?thesis by (simp add: raw_replies_def)
qed

lemma valid_count:
  "valid_node env n \<Longrightarrow> length (preorder_spec d n) = count_t1_spec n"
proof (induction n arbitrary: d rule: measure_induct_rule [of weight])
  case (less n)
  show ?case
  proof (cases "is_comment n")
    case False
    with valid_not_comment [OF less.prems] show ?thesis
      by (simp add: preorder_spec.simps [of d n] count_t1_spec.simps [of n])
  next
    case True
    from less.prems obtain kind kvs where d: "getitem n ''data'' = Inr (JDict kvs)"
      by (rule valid_node_cases)
    from True have "getitem n ''kind'' = Inr (JStr ''t1'')" by (simp add: is_comment_def)
    from valid_reply_children [OF less.prems this d]
    have va: "list_all (valid_node env) (raw_replies n)" by simp
    have "length (preorder_spec (Suc d) x) = count_t1_spec x" if "x \<in> set (raw_replies n)" for x
      using less.IH [OF raw_replies_weight [OF that]] va that by (simp add: list_all_iff)
    then have "sum_list (map (\<lambda>x. length (preorder_spec (Suc d) x)) (raw_replies n))
        = sum_list (map count_t1_spec (raw_replies n))"
      by (intro arg_cong [where f = sum_list] map_cong) simp_all
    with True show ?thesis
      by (simp add: preorder_spec.simps [of d n] count_t1_spec.simps [of n] length_concat comp_def)
  qed
qed

section \<open>The loops of the generic extractor\<close>

lemma scan_elements_filter:
  "scan_elements clock selector ps (cs, k) =
     (cs @ map (\<lambda>jt. generic_comment selector (fst (snd jt)) (snd (snd jt)) (clock (fst jt)))
             (enumerate k (filter (\<lambda>it. length (snd it) > 10) ps)),
      k + length (filter (\<lambda>it. length (snd it) > 10) ps))"
proof (induction ps arbitrary: cs k)
  case (Cons p ps)
  obtain i t where p: "p = (i, t)" by (cases p)
  show ?case using Cons.IH by (simp add: p)
qed simp

lemma enumerate_Nil_iff: "enumerate n xs = [] \<longleftrightarrow> xs = []"
  by (cases xs) simp_all

lemma try_selectors_first_match:
  "try_selectors clock soup selectors ([], 0) =
     (first_match_spec clock soup selectors, length (first_match_spec clock soup selectors))"
proof (induction selectors)
  case Nil
  then show ?case by (simp add: first_match_spec_def)
next
  case (Cons s rest)
  show ?case
  proof (cases "survivors soup s = []")
    case True
    then have "find (\<lambda>s. survivors soup s \<noteq> []) (s # rest) = find (\<lambda>s. survivors soup s \<noteq> []) rest"
      by simp
    then have spec: "first_match_spec clock soup (s # rest) = first_match_spec clock soup rest"
      by (simp add: first_match_spec_def)
    from True have "scan_elements clock s (enumerate 0 (take 50 (soup s))) ([], 0) = ([], 0)"
      by (simp add: scan_elements_filter survivors_def)
    then show ?thesis using Cons.IH spec by (simp add: Let_def)
  next
    case False
    then have ne: "soup s \<noteq> []" by (auto simp: survivors_def)
    from False have spec: "first_match_spec clock soup (s # rest) =
        map (\<lambda>jt. generic_comment s (fst (snd jt)) (snd (snd jt)) (clock (fst jt)))
          (enumerate 0 (survivors soup s))"
      by (simp add: first_match_spec_def)
    have "scan_elements clock s (enumerate 0 (take 50 (soup s))) ([], 0) =
        (first_match_spec clock soup (s # rest), length (survivors soup s))"
      by (simp add: scan_elements_filter spec) (simp add: survivors_def)
    with False ne spec show ?thesis by (simp add: Let_def enumerate_Nil_iff)
  qed
qed

lemma extract_generic_first_match:
  assumes "get_soup env url = Inr soup"
  shows "extract_generic_comments clock env url = (None, first_match_spec clock soup comment_selectors)"
  using assms by (simp add: extract_generic_comments_def try_selectors_first_match)

lemma survivors_bound: "length (survivors soup s) \<le> 50"
proof -
  have "length (survivors soup s) \<le> length (enumerate 0 (take 50 (soup s)))"
    unfolding survivors_def by (rule length_filter_le)
  then show ?thesis by simp
qed

lemma truncate_length: "length (truncate t) \<le> 503"
  by (simp add: truncate_def)

lemma first_match_text:
  assumes "c \<in> set (first_match_spec clock soup selectors)"
  shows "\<exists>t. comment_text c = JStr (truncate t)"
  using assms by (auto simp: first_match_spec_def generic_comment_def split: option.splits)

lemma first_match_erase_time:
  "map erase_time (first_match_spec clock1 soup selectors)
     = map erase_time (first_match_spec clock2 soup selectors)"
  by (simp add: first_match_spec_def erase_time_def generic_comment_def split: option.splits)

lemma first_match_created_utc:
  "map created_utc (first_match_spec clock soup selectors)
     = map clock [0..<length (first_match_spec clock soup selectors)]"
proof -
  have "map (\<lambda>jt. clock (fst jt)) (enumerate 0 xs) = map clock [0..<length xs]" for xs :: "(nat \<times> string) list"
  proof -
    have "map (\<lambda>jt. clock (fst jt)) (enumerate 0 xs) = map (clock \<circ> fst) (enumerate 0 xs)"
      by (simp only: comp_def)
    also have "\<dots> = map clock (map fst (enumerate 0 xs))"
      by (simp only: map_map)
    also have "map fst (enumerate 0 xs) = [0..<length xs]"
      by (simp add: map_fst_enumerate)
    finally show ?thesis .
  qed
  then show ?thesis
    by (simp add: first_match_spec_def generic_comment_def comp_def split: option.splits)
qed

lemma extract_generic_erase_time:
  "map_prod id (map erase_time) (extract_generic_comments clock1 env url)
     = map_prod id (map erase_time) (extract_generic_comments clock2 env url)"
proof (cases "get_soup env url")
  case (Inl e)
  then show ?thesis by (simp add: extract_generic_comments_def)
next
  case (Inr soup)
  then show ?thesis by (simp add: extract_generic_first_match first_match_erase_time)
qed

section \<open>Properties of the extractors\<close>

lemma ex_thread_served:
  "get_json (ex_env payload) (json_url ex_url) = Inr payload"
  by (simp add: ex_env_def json_url_def endswith_def rstrip_slash_def ex_url_def)

text \<open>
  C1. For a two-element payload whose second element is a listing of well-formed nodes
  (\<open>valid_node\<close>: comments with replies that are absent, empty or a listing; stubs without
  replies), extraction raises nothing and returns as many records as there are \<^verbatim>\<open>t1\<close>
  nodes in the tree below the comment listing.
\<close>

theorem reddit_record_count:
  assumes "get_json env (json_url url) = Inr (JList [post, comments_listing])"
    and "listing_children comments_listing = Some nodes"
    and "list_all (valid_node env) nodes"
  shows "fst (extract_reddit_comments env url) = None \<and>
         length (snd (extract_reddit_comments env url)) = sum_list (map count_t1_spec nodes)"
proof -
  have body: "reddit_body env url = parse_each env nodes 0 []"
    by (rule reddit_body_listing [OF assms(1,2)])
  from valid_walk(2) [OF assms(3)] obtain cs where cs: "parse_each env nodes 0 [] = Inr cs"
    by blast
  from walk_preorder(2) [OF cs]
  have "map Inr cs = map (record_of env) (concat (map (preorder_spec 0) nodes))" by simp
  then have "length cs = length (concat (map (preorder_spec 0) nodes))"
    by (metis length_map)
  also have "\<dots> = sum_list (map (\<lambda>n. length (preorder_spec 0 n)) nodes)"
    by (simp add: length_concat comp_def)
  also have "\<dots> = sum_list (map count_t1_spec nodes)"
    using assms(3) by (intro arg_cong [where f = sum_list] map_cong) (simp_all add: list_all_iff valid_count [where env = env])
  finally show ?thesis using body cs by (simp add: extract_reddit_comments_def)
qed

theorem reddit_record_count_witness:
  "fst (extract_reddit_comments (ex_env ex_thread) ex_url) = None \<and>
   length (snd (extract_reddit_comments (ex_env ex_thread) ex_url)) = 3 \<and>
   sum_list (map count_t1_spec ex_nodes) = 3"
proof -
  have 1: "get_json (ex_env ex_thread) (json_url ex_url) = Inr (JList [listing [], listing ex_nodes])"
    by (simp add: ex_env_def ex_thread_def json_url_def endswith_def rstrip_slash_def ex_url_def)
  have 2: "listing_children (listing ex_nodes) = Some ex_nodes"
    by (simp add: listing_children_def listing_def)
  have 3: "list_all (valid_node (ex_env ex_thread)) ex_nodes"
    by code_simp
  have 4: "sum_list (map count_t1_spec ex_nodes) = 3"
    by code_simp
  from reddit_record_count [OF 1 2 3] 4 show ?thesis by simp
qed

text \<open>
  C2, as the code has it. The generic extractor cuts the text to 500 characters and appends
  the three-character marker: no text is longer than 503 characters, and a text of 600
  characters gives exactly 503. The Reddit parser stores the body whole.
\<close>

theorem text_truncation:
  "(get_soup env url = Inr soup \<and> c \<in> set (snd (extract_generic_comments clock env url)) \<longrightarrow>
      (\<exists>t. comment_text c = JStr t \<and> length t \<le> 503)) \<and>
   (length t = 600 \<longrightarrow>
      comment_text (generic_comment selector i t now) = JStr (take 500 t @ ''...'') \<and>
      text_length (generic_comment selector i t now) = 503) \<and>
   (get_json env (json_url url) = Inr (JList (post # comments_listing # rest)) \<and>
    listing_children comments_listing = Some nodes \<and>
    extract_reddit_comments env url = (None, comments) \<longrightarrow>
      map comment_text comments = map (\<lambda>nd. node_body (fst nd)) (concat (map (preorder_spec 0) nodes)))"
proof (intro conjI impI)
  assume a: "get_soup env url = Inr soup \<and> c \<in> set (snd (extract_generic_comments clock env url))"
  then have "get_soup env url = Inr soup" by simp
  from a extract_generic_first_match [OF this, of clock]
  have "c \<in> set (first_match_spec clock soup comment_selectors)" by simp
  from first_match_text [OF this] obtain t where "comment_text c = JStr (truncate t)" by blast
  with truncate_length [of t] show "\<exists>t. comment_text c = JStr t \<and> length t \<le> 503" by blast
next
  assume "length t = 600"
  then show "comment_text (generic_comment selector i t now) = JStr (take 500 t @ ''...'')"
    by (simp add: generic_comment_def truncate_def)
next
  assume "length t = 600"
  then show "text_length (generic_comment selector i t now) = 503"
    by (simp add: generic_comment_def truncate_def text_length_def)
next
  assume a: "get_json env (json_url url) = Inr (JList (post # comments_listing # rest)) \<and>
    listing_children comments_listing = Some nodes \<and>
    extract_reddit_comments env url = (None, comments)"
  then have "get_json env (json_url url) = Inr (JList (post # comments_listing # rest))"
    "listing_children comments_listing = Some nodes"
    "extract_reddit_comments env url = (None, comments)"
    by simp_all
  then have "map Inr comments = map (record_of env) (concat (map (preorder_spec 0) nodes))"
    by (rule returned_preorder)
  then show "map comment_text comments = map (\<lambda>nd. node_body (fst nd)) (concat (map (preorder_spec 0) nodes))"
    by (rule map_records) (rule record_of_body)
qed

theorem text_truncation_witness:
  "(\<exists>t. comment_text (hd (snd (extract_generic_comments (ex_clock 0) (ex_site ex_long_soup)
            ''https://blog.example.com/post''))) = JStr t \<and> length t \<le> 503) \<and>
   map text_length (snd (extract_generic_comments (ex_clock 0) (ex_site ex_long_soup) ''https://blog.example.com/post'')) = [503] \<and>
   text_length (generic_comment ''.comment'' 0 (replicate 600 CHR ''a'') (Datetime 0)) = 503 \<and>
   map comment_text (snd (extract_reddit_comments (ex_env ex_thread) ex_url))
     = [JStr ''hi'', JStr ''yo'', JStr ''[deleted]'']"
proof -
  have 1: "map text_length (snd (extract_generic_comments (ex_clock 0) (ex_site ex_long_soup) ''https://blog.example.com/post'')) = [503]"
    by code_simp
  have 0: "get_soup (ex_site ex_long_soup) ''https://blog.example.com/post'' = Inr ex_long_soup \<and>
      hd (snd (extract_generic_comments (ex_clock 0) (ex_site ex_long_soup) ''https://blog.example.com/post''))
        \<in> set (snd (extract_generic_comments (ex_clock 0) (ex_site ex_long_soup) ''https://blog.example.com/post''))"
  proof
    show "get_soup (ex_site ex_long_soup) ''https://blog.example.com/post'' = Inr ex_long_soup"
      by (simp add: ex_site_def)
    show "hd (snd (extract_generic_comments (ex_clock 0) (ex_site ex_long_soup) ''https://blog.example.com/post''))
        \<in> set (snd (extract_generic_comments (ex_clock 0) (ex_site ex_long_soup) ''https://blog.example.com/post''))"
      by code_simp
  qed
  note a = text_truncation [THEN conjunct1, THEN mp, OF 0]
  have 2: "length (replicate 600 CHR ''a'') = 600" by simp
  note b = text_truncation [of _ _ _ _ _ "replicate 600 CHR ''a''" "''.comment''" 0 "Datetime 0",
      THEN conjunct2, THEN conjunct1, THEN mp, OF 2, THEN conjunct2]
  have 3: "get_json (ex_env ex_thread) (json_url ex_url) = Inr (JList (listing [] # listing ex_nodes # [])) \<and>
      listing_children (listing ex_nodes) = Some ex_nodes \<and>
      extract_reddit_comments (ex_env ex_thread) ex_url
        = (None, snd (extract_reddit_comments (ex_env ex_thread) ex_url))"
  proof (intro conjI)
    show "get_json (ex_env ex_thread) (json_url ex_url) = Inr (JList (listing [] # listing ex_nodes # []))"
      by (simp add: ex_thread_served) (simp add: ex_thread_def)
    show "listing_children (listing ex_nodes) = Some ex_nodes"
      by (simp add: listing_children_def listing_def)
    show "extract_reddit_comments (ex_env ex_thread) ex_url
        = (None, snd (extract_reddit_comments (ex_env ex_thread) ex_url))"
      by code_simp
  qed
  have 4: "map (\<lambda>nd. node_body (fst nd)) (concat (map (preorder_spec 0) ex_nodes))
      = [JStr ''hi'', JStr ''yo'', JStr ''[deleted]'']"
    by code_simp
  note c = text_truncation [THEN conjunct2, THEN conjunct2, THEN mp, OF 3, unfolded 4]
  show ?thesis by (intro conjI) (rule a, rule 1, rule b, rule c)
qed

text \<open>
  C2 as stated fails for the Reddit parser: a body of 600 characters is stored whole.
\<close>

theorem reddit_text_counterexample:
  "map text_length (snd (extract_reddit_comments (ex_env ex_long) ex_url)) = [600]"
  by code_simp

text \<open>
  C3, as the code has it. With the responses and the libraries unchanged, two runs return
  the same result but for the timestamps of the generic extractor: a Reddit address gives
  the same records whatever the clock, and elsewhere the records agree in every field
  other than \<open>created_utc\<close>, which holds the successive readings of the clock.
\<close>

theorem rerun_same_up_to_clock:
  "without_time (extract_comments clock1 env url) = without_time (extract_comments clock2 env url) \<and>
   (netloc_lower env url = Inr domain \<and> contains ''reddit.com'' domain \<longrightarrow>
      extract_comments clock1 env url = extract_comments clock2 env url) \<and>
   (get_soup env url = Inr soup \<longrightarrow>
      map created_utc (snd (extract_generic_comments clock1 env url))
        = map clock1 [0..<length (snd (extract_generic_comments clock1 env url))])"
proof (intro conjI impI)
  show "without_time (extract_comments clock1 env url) = without_time (extract_comments clock2 env url)"
    using extract_generic_erase_time [of clock1 env url clock2]
    by (cases "extract_generic_comments clock1 env url"; cases "extract_generic_comments clock2 env url")
      (auto simp: extract_comments_def without_time_def split: sum.splits)
next
  assume "netloc_lower env url = Inr domain \<and> contains ''reddit.com'' domain"
  then show "extract_comments clock1 env url = extract_comments clock2 env url"
    by (simp add: extract_comments_def)
next
  assume "get_soup env url = Inr soup"
  from extract_generic_first_match [OF this, of clock1]
  show "map created_utc (snd (extract_generic_comments clock1 env url))
        = map clock1 [0..<length (snd (extract_generic_comments clock1 env url))]"
    by (simp add: first_match_created_utc)
qed

theorem rerun_same_up_to_clock_witness:
  "extract_comments (ex_clock 0) (ex_env ex_thread) ex_url
     = extract_comments (ex_clock 1000) (ex_env ex_thread) ex_url \<and>
   map created_utc (snd (extract_generic_comments (ex_clock 1000) (ex_site ex_soup) ''https://blog.example.com/post''))
     = [Datetime 1000, Datetime 1001]"
proof -
  have 1: "netloc_lower (ex_env ex_thread) ex_url = Inr ''www.reddit.com'' \<and>
      contains ''reddit.com'' ''www.reddit.com''"
    by (simp add: ex_env_def)
  have 2: "get_soup (ex_site ex_soup) ''https://blog.example.com/post'' = Inr ex_soup"
    by (simp add: ex_site_def)
  have 3: "map (ex_clock 1000)
      [0..<length (snd (extract_generic_comments (ex_clock 1000) (ex_site ex_soup) ''https://blog.example.com/post''))]
      = [Datetime 1000, Datetime 1001]"
    by code_simp
  note a = rerun_same_up_to_clock [of "ex_clock 0" "ex_env ex_thread" ex_url "ex_clock 1000",
      THEN conjunct2, THEN conjunct1, THEN mp, OF 1]
  note b = rerun_same_up_to_clock [of "ex_clock 1000" "ex_site ex_soup" "''https://blog.example.com/post''",
      THEN conjunct2, THEN conjunct2, THEN mp, OF 2, unfolded 3]
  show ?thesis by (intro conjI) (rule a, rule b)
qed

text \<open>
  C3 as stated fails for the generic extractor: the same document at two different times
  gives two different sequences of records.
\<close>

theorem rerun_generic_counterexample:
  "extract_comments (ex_clock 0) (ex_site ex_soup) ''https://blog.example.com/post''
     \<noteq> extract_comments (ex_clock 1000) (ex_site ex_soup) ''https://blog.example.com/post''"
  by code_simp

text \<open>
  C4, as the code has it. The permalink of each returned record is the base URL followed by
  the node's relative permalink; for a node without a permalink it is the base URL alone.
\<close>

theorem reddit_permalink:
  assumes "get_json env (json_url url) = Inr (JList (post # comments_listing # rest))"
    and "listing_children comments_listing = Some nodes"
    and "extract_reddit_comments env url = (None, comments)"
  shows "map permalink comments =
           map (\<lambda>nd. Some (''https://reddit.com'' @ relative_permalink env (fst nd)))
             (concat (map (preorder_spec 0) nodes))"
  by (rule map_records [OF returned_preorder [OF assms]]) (rule record_of_permalink)

theorem reddit_permalink_witness:
  "map permalink (snd (extract_reddit_comments (ex_env ex_thread) ex_url))
     = [Some ''https://reddit.com/r/x/c1'', Some ''https://reddit.com/r/x/c2'', Some ''https://reddit.com''] \<and>
   map (\<lambda>nd. relative_permalink (ex_env ex_thread) (fst nd)) (concat (map (preorder_spec 0) ex_nodes))
     = [''/r/x/c1'', ''/r/x/c2'', []]"
proof -
  have 5: "map (\<lambda>nd. Some (''https://reddit.com'' @ relative_permalink (ex_env ex_thread) (fst nd)))
             (concat (map (preorder_spec 0) ex_nodes))
     = [Some ''https://reddit.com/r/x/c1'', Some ''https://reddit.com/r/x/c2'', Some ''https://reddit.com'']"
    by code_simp
  have 1: "get_json (ex_env ex_thread) (json_url ex_url) = Inr (JList (listing [] # listing ex_nodes # []))"
    by (simp add: ex_thread_served) (simp add: ex_thread_def)
  have 2: "listing_children (listing ex_nodes) = Some ex_nodes"
    by (simp add: listing_children_def listing_def)
  have 3: "extract_reddit_comments (ex_env ex_thread) ex_url
      = (None, snd (extract_reddit_comments (ex_env ex_thread) ex_url))"
    by code_simp
  have 4: "map (\<lambda>nd. relative_permalink (ex_env ex_thread) (fst nd)) (concat (map (preorder_spec 0) ex_nodes))
     = [''/r/x/c1'', ''/r/x/c2'', []]"
    by code_simp
  from reddit_permalink [OF 1 2 3] have "map permalink (snd (extract_reddit_comments (ex_env ex_thread) ex_url))
     = [Some ''https://reddit.com/r/x/c1'', Some ''https://reddit.com/r/x/c2'', Some ''https://reddit.com'']"
    unfolding 5 .
  then show ?thesis using 4 by (rule conjI)
qed

text \<open>
  C4 as stated fails: a comment without a permalink gets the base URL, not an empty field.
\<close>

theorem permalink_absent_counterexample:
  "map permalink (snd (extract_reddit_comments (ex_env ex_no_permalink) ex_url))
     = [Some ''https://reddit.com'']"
  by code_simp

text \<open>
  C5. The depth of each returned record is the number of comments above its node in the
  tree: none for a top-level comment, one more than its parent's for a reply.
\<close>

theorem reddit_depth:
  assumes "get_json env (json_url url) = Inr (JList (post # comments_listing # rest))"
    and "listing_children comments_listing = Some nodes"
    and "extract_reddit_comments env url = (None, comments)"
  shows "map depth comments = map (\<lambda>na. length (snd na)) (concat (map (ancestors_spec []) nodes)) \<and>
         map Inr comments =
           map (\<lambda>na. record_of env (fst na, length (snd na))) (concat (map (ancestors_spec []) nodes))"
proof -
  have pre: "concat (map (preorder_spec 0) nodes)
      = map (\<lambda>na. (fst na, length (snd na))) (concat (map (ancestors_spec []) nodes))"
    using ancestors_preorder [of "[]"] by (simp add: map_concat comp_def)
  have rec: "map Inr comments = map (record_of env) (concat (map (preorder_spec 0) nodes))"
    by (rule returned_preorder [OF assms])
  from map_records [OF rec, of depth snd] have "map depth comments = map snd (concat (map (preorder_spec 0) nodes))"
    by (simp add: record_of_depth)
  with rec show ?thesis unfolding pre by (simp add: comp_def)
qed

theorem reddit_depth_witness:
  "map depth (snd (extract_reddit_comments (ex_env ex_thread) ex_url)) = [0, 1, 0] \<and>
   map (\<lambda>na. length (snd na)) (concat (map (ancestors_spec []) ex_nodes)) = [0, 1, 0]"
proof -
  have 1: "get_json (ex_env ex_thread) (json_url ex_url) = Inr (JList (listing [] # listing ex_nodes # []))"
    by (simp add: ex_thread_served) (simp add: ex_thread_def)
  have 2: "listing_children (listing ex_nodes) = Some ex_nodes"
    by (simp add: listing_children_def listing_def)
  have 3: "extract_reddit_comments (ex_env ex_thread) ex_url
      = (None, snd (extract_reddit_comments (ex_env ex_thread) ex_url))"
    by code_simp
  have 4: "map depth (snd (extract_reddit_comments (ex_env ex_thread) ex_url)) = [0, 1, 0]"
    by code_simp
  from reddit_depth [OF 1 2 3] 4 show ?thesis by simp
qed

text \<open>
  C6. The records returned are those of the pre-order listing of the comment tree, in that
  order: each comment, then the records of its replies in source order, then its following
  siblings. (When no exception was raised; otherwise nothing is returned.)
\<close>

theorem reddit_preorder:
  assumes "get_json env (json_url url) = Inr (JList (post # comments_listing # rest))"
    and "listing_children comments_listing = Some nodes"
    and "extract_reddit_comments env url = (None, comments)"
  shows "map Inr comments = map (record_of env) (concat (map (preorder_spec 0) nodes))"
  by (rule returned_preorder [OF assms])

theorem reddit_preorder_witness:
  "map Inr (snd (extract_reddit_comments (ex_env ex_thread) ex_url))
     = map (record_of (ex_env ex_thread)) (concat (map (preorder_spec 0) ex_nodes)) \<and>
   map author (snd (extract_reddit_comments (ex_env ex_thread) ex_url))
     = [JStr ''alice'', JStr ''bob'', JStr ''carol'']"
proof -
  have 1: "get_json (ex_env ex_thread) (json_url ex_url) = Inr (JList (listing [] # listing ex_nodes # []))"
    by (simp add: ex_thread_served) (simp add: ex_thread_def)
  have 2: "listing_children (listing ex_nodes) = Some ex_nodes"
    by (simp add: listing_children_def listing_def)
  have 3: "extract_reddit_comments (ex_env ex_thread) ex_url
      = (None, snd (extract_reddit_comments (ex_env ex_thread) ex_url))"
    by code_simp
  have 4: "map author (snd (extract_reddit_comments (ex_env ex_thread) ex_url))
     = [JStr ''alice'', JStr ''bob'', JStr ''carol'']"
    by code_simp
  from reddit_preorder [OF 1 2 3] 4 show ?thesis by simp
qed

text \<open>
  C7. Whatever the body of the operation raises (the request, the decoding of the JSON, a
  payload of an unexpected shape, the walk) ends as the diagnostic and the empty list; a
  payload that is not a list, or a list of fewer than two elements, gives the empty list
  and no diagnostic. The operation always returns a list.
\<close>

theorem reddit_failures_caught:
  "(get_json env (json_url url) = Inl e \<longrightarrow>
      extract_reddit_comments env url = (Some (StError ''Error extracting Reddit comments: '' e), [])) \<and>
   (get_json env (json_url url) = Inr data \<and> (\<forall>xs. data = JList xs \<longrightarrow> length xs \<le> 1) \<longrightarrow>
      extract_reddit_comments env url = (None, [])) \<and>
   (reddit_body env url = Inl (e', built) \<longrightarrow>
      extract_reddit_comments env url = (Some (StError ''Error extracting Reddit comments: '' e'), [])) \<and>
   (fst (extract_reddit_comments env url) \<noteq> None \<longrightarrow> snd (extract_reddit_comments env url) = [])"
proof (intro conjI impI)
  assume "get_json env (json_url url) = Inl e"
  then show "extract_reddit_comments env url = (Some (StError ''Error extracting Reddit comments: '' e), [])"
    by (simp add: extract_reddit_comments_def reddit_body_def)
next
  assume a: "get_json env (json_url url) = Inr data \<and> (\<forall>xs. data = JList xs \<longrightarrow> length xs \<le> 1)"
  then have "reddit_body env url = Inr []"
    by (cases data) (auto simp: reddit_body_def)
  then show "extract_reddit_comments env url = (None, [])"
    by (simp add: extract_reddit_comments_def)
next
  assume "reddit_body env url = Inl (e', built)"
  then show "extract_reddit_comments env url = (Some (StError ''Error extracting Reddit comments: '' e'), [])"
    by (simp add: extract_reddit_comments_def)
next
  assume "fst (extract_reddit_comments env url) \<noteq> None"
  then show "snd (extract_reddit_comments env url) = []"
    by (auto simp: extract_reddit_comments_def split: sum.splits)
qed

theorem reddit_failures_caught_witness:
  "extract_reddit_comments (ex_env ex_thread) ''https://www.reddit.com/gone''
     = (Some (StError ''Error extracting Reddit comments: '' HTTPError), []) \<and>
   extract_reddit_comments (ex_env (JList [])) ex_url = (None, []) \<and>
   extract_reddit_comments (ex_env (JDict [])) ex_url = (None, []) \<and>
   extract_reddit_comments (ex_env (JList [JNull, JNull])) ex_url
     = (Some (StError ''Error extracting Reddit comments: '' TypeError), []) \<and>
   snd (extract_reddit_comments (ex_env ex_broken) ex_url) = []"
proof -
  have 5: "fst (extract_reddit_comments (ex_env ex_broken) ex_url) \<noteq> None"
    by code_simp
  note e = reddit_failures_caught [of "ex_env ex_broken" ex_url,
      THEN conjunct2, THEN conjunct2, THEN conjunct2, THEN mp, OF 5]
  have 1: "get_json (ex_env ex_thread) (json_url ''https://www.reddit.com/gone'') = Inl HTTPError"
    by (simp add: ex_env_def json_url_def endswith_def rstrip_slash_def)
  have 2: "get_json (ex_env (JList [])) (json_url ex_url) = Inr (JList []) \<and>
      (\<forall>xs. JList [] = JList xs \<longrightarrow> length xs \<le> 1)"
    by (simp add: ex_thread_served)
  have 3: "get_json (ex_env (JDict [])) (json_url ex_url) = Inr (JDict []) \<and>
      (\<forall>xs. JDict [] = JList xs \<longrightarrow> length xs \<le> 1)"
    by (simp add: ex_thread_served)
  have 4: "reddit_body (ex_env (JList [JNull, JNull])) ex_url = Inl (TypeError, [])"
    by (simp add: reddit_body_def ex_thread_served)
  note a = reddit_failures_caught [of "ex_env ex_thread" "''https://www.reddit.com/gone''" HTTPError,
      THEN conjunct1, THEN mp, OF 1]
  note b = reddit_failures_caught [of "ex_env (JList [])" ex_url _ "JList []",
      THEN conjunct2, THEN conjunct1, THEN mp, OF 2]
  note c = reddit_failures_caught [of "ex_env (JDict [])" ex_url _ "JDict []",
      THEN conjunct2, THEN conjunct1, THEN mp, OF 3]
  note d = reddit_failures_caught [of "ex_env (JList [JNull, JNull])" ex_url _ _ TypeError "[]",
      THEN conjunct2, THEN conjunct2, THEN conjunct1, THEN mp, OF 4]
  show ?thesis by (intro conjI) (rule a, rule b, rule c, rule d, rule e)
qed

text \<open>
  C8. The records returned are those of the first selector of the fixed list that has a
  survivor among its first 50 elements (text longer than 10 characters); all carry that
  selector as their source, and there are at most 50 of them.
\<close>

theorem generic_first_match:
  assumes "get_soup env url = Inr soup"
  shows "snd (extract_generic_comments clock env url) = first_match_spec clock soup comment_selectors \<and>
         (\<forall>c \<in> set (snd (extract_generic_comments clock env url)).
            source c = find (\<lambda>s. survivors soup s \<noteq> []) comment_selectors) \<and>
         length (snd (extract_generic_comments clock env url)) \<le> 50"
proof -
  have eq: "snd (extract_generic_comments clock env url) = first_match_spec clock soup comment_selectors"
    by (simp add: extract_generic_first_match [OF assms])
  have "\<forall>c \<in> set (first_match_spec clock soup comment_selectors).
      source c = find (\<lambda>s. survivors soup s \<noteq> []) comment_selectors"
    by (auto simp: first_match_spec_def generic_comment_def split: option.splits)
  moreover have "length (first_match_spec clock soup comment_selectors) \<le> 50"
    by (auto simp: first_match_spec_def survivors_bound split: option.splits)
  ultimately show ?thesis unfolding eq by simp
qed

theorem generic_first_match_witness:
  "map (\<lambda>c. (source c, ident c, comment_text c))
       (snd (extract_generic_comments (ex_clock 7) (ex_site ex_soup) ''https://blog.example.com/post''))
     = [(Some ''.reply'', JStr ''generic_0'', JStr ''first comment of the page''),
        (Some ''.reply'', JStr ''generic_2'', JStr ''second comment of the page'')] \<and>
   find (\<lambda>s. survivors ex_soup s \<noteq> []) comment_selectors = Some ''.reply''"
proof -
  have 1: "get_soup (ex_site ex_soup) ''https://blog.example.com/post'' = Inr ex_soup"
    by (simp add: ex_site_def)
  have 2: "map (\<lambda>c. (source c, ident c, comment_text c))
       (first_match_spec (ex_clock 7) ex_soup comment_selectors)
     = [(Some ''.reply'', JStr ''generic_0'', JStr ''first comment of the page''),
        (Some ''.reply'', JStr ''generic_2'', JStr ''second comment of the page'')]"
    by code_simp
  have 3: "find (\<lambda>s. survivors ex_soup s \<noteq> []) comment_selectors = Some ''.reply''"
    by code_simp
  note a = generic_first_match [OF 1, of "ex_clock 7", THEN conjunct1]
  show ?thesis unfolding a by (intro conjI) (rule 2, rule 3)
qed

text \<open>
  C9. When the walk raises, the records appended so far are dropped and the empty list is
  returned; a list that is returned non-empty is the list of the whole walk.
\<close>

theorem reddit_all_or_nothing:
  assumes "get_json env (json_url url) = Inr (JList (post # comments_listing # rest))"
    and "listing_children comments_listing = Some nodes"
  shows "(parse_each env nodes 0 [] = Inl (e, built) \<longrightarrow>
            extract_reddit_comments env url
              = (Some (StError ''Error extracting Reddit comments: '' e), [])) \<and>
         (snd (extract_reddit_comments env url) \<noteq> [] \<longrightarrow>
            parse_each env nodes 0 [] = Inr (snd (extract_reddit_comments env url)))"
  using reddit_body_listing [OF assms]
  by (auto simp: extract_reddit_comments_def split: sum.splits)

theorem reddit_all_or_nothing_witness:
  "parse_each (ex_env ex_broken) ex_broken_nodes 0 [] = Inl (KeyError ''kind'', [ex_alice]) \<and>
   extract_reddit_comments (ex_env ex_broken) ex_url
     = (Some (StError ''Error extracting Reddit comments: '' (KeyError ''kind'')), []) \<and>
   snd (extract_reddit_comments (ex_env ex_thread) ex_url) \<noteq> [] \<and>
   parse_each (ex_env ex_thread) ex_nodes 0 [] = Inr (snd (extract_reddit_comments (ex_env ex_thread) ex_url))"
proof -
  have 1: "get_json (ex_env ex_broken) (json_url ex_url) = Inr (JList (listing [] # listing ex_broken_nodes # []))"
    by (simp add: ex_thread_served) (simp add: ex_broken_def)
  have 2: "listing_children (listing ex_broken_nodes) = Some ex_broken_nodes"
    by (simp add: listing_children_def listing_def)
  have 3: "parse_each (ex_env ex_broken) ex_broken_nodes 0 [] = Inl (KeyError ''kind'', [ex_alice])"
    by code_simp
  have 4: "get_json (ex_env ex_thread) (json_url ex_url) = Inr (JList (listing [] # listing ex_nodes # []))"
    by (simp add: ex_thread_served) (simp add: ex_thread_def)
  have 5: "listing_children (listing ex_nodes) = Some ex_nodes"
    by (simp add: listing_children_def listing_def)
  have 6: "snd (extract_reddit_comments (ex_env ex_thread) ex_url) \<noteq> []"
    by code_simp
  note a = reddit_all_or_nothing [OF 1 2, of "KeyError ''kind''" "[ex_alice]", THEN conjunct1, THEN mp, OF 3]
  note b = reddit_all_or_nothing [OF 4 5, THEN conjunct2, THEN mp, OF 6]
  show ?thesis by (intro conjI) (rule 3, rule a, rule 6, rule b)
qed

text \<open>
  C10. A node whose kind is not \<^verbatim>\<open>t1\<close> leaves \<^verbatim>\<open>comments\<close> as it was and nothing below it is
  looked at: whatever its data holds, the call returns at once and the loop goes on with
  its next sibling.
\<close>

theorem stub_not_traversed:
  assumes "getitem n ''kind'' = Inr kind" and "kind \<noteq> JStr ''t1''"
  shows "parse_comment env n d comments = Inr comments \<and>
         parse_each env (n # siblings) d comments = parse_each env siblings d comments"
  using assms by (simp add: parse_comment.simps [of env n])

theorem stub_not_traversed_witness:
  "parse_comment (ex_env ex_thread) ex_nested_in_stub 0 [] = Inr [] \<and>
   count_t1_spec ex_nested_in_stub = 1 \<and>
   extract_reddit_comments (ex_env (JList [listing [], listing [ex_nested_in_stub]])) ex_url = (None, [])"
proof -
  have 1: "getitem ex_nested_in_stub ''kind'' = Inr (JStr ''more'')"
    by (simp add: ex_nested_in_stub_def node_def)
  have 2: "JStr ''more'' \<noteq> JStr ''t1''" by simp
  have 3: "count_t1_spec ex_nested_in_stub = 1" by code_simp
  have "get_json (ex_env (JList [listing [], listing [ex_nested_in_stub]])) (json_url ex_url)
      = Inr (JList (listing [] # listing [ex_nested_in_stub] # []))"
    by (simp add: ex_thread_served)
  moreover have "listing_children (listing [ex_nested_in_stub]) = Some [ex_nested_in_stub]"
    by (simp add: listing_children_def listing_def)
  ultimately have 4: "reddit_body (ex_env (JList [listing [], listing [ex_nested_in_stub]])) ex_url
      = parse_each (ex_env (JList [listing [], listing [ex_nested_in_stub]])) [ex_nested_in_stub] 0 []"
    by (rule reddit_body_listing)
  from stub_not_traversed [OF 1 2, of "ex_env ex_thread" 0 "[]" "[]"]
    stub_not_traversed [OF 1 2, of "ex_env (JList [listing [], listing [ex_nested_in_stub]])" 0 "[]" "[]"]
    3 4
  show ?thesis by (simp add: extract_reddit_comments_def)
qed

end
